theory Spec2Isabelle
  imports Complex_Main "HOL-Library.AList"
begin

section \<open>Python values\<close>

text \<open>
  The functions of \<^verbatim>\<open>ord/utils.py\<close> work on JSON-like Python values: nested
  \<^verbatim>\<open>dict\<close>s and \<^verbatim>\<open>list\<close>s with scalar leaves. A dictionary key is a string, an
  integer or (for an already flattened dictionary) a tuple of keys. A path tuple is a
  list of keys.

  A \<^verbatim>\<open>dict\<close> is an association list in insertion order; Python never holds two
  entries under one key, which is the invariant \<open>wf_val\<close> below. \<open>PNotPresent\<close> is
  the \<^verbatim>\<open>NotPresent\<close> sentinel of the deepdiff library. Floating-point leaves are
  not modelled.
\<close>

datatype key = KStr string | KInt int | KTuple "key list"

datatype pyval =
    PNone
  | PBool bool
  | PInt int
  | PStr string
  | PNotPresent
  | PList "pyval list"
  | PDict "(key \<times> pyval) list"

type_synonym path = "key list"

datatype error = AssertionError | ValueError | TypeError | KeyError

fun wf_val :: "pyval \<Rightarrow> bool" where
  "wf_val (PList l) = (\<forall>v \<in> set l. wf_val v)"
| "wf_val (PDict m) = (distinct (map fst m) \<and> (\<forall>kv \<in> set m. wf_val (snd kv)))"
| "wf_val _ = True"

text \<open>
  \<^verbatim>\<open>dict(items)\<close>: the pairs are inserted from left to right; a key that is already
  there keeps its position and takes the new value.
\<close>

definition dict_of :: "('k \<times> 'v) list \<Rightarrow> ('k \<times> 'v) list" where
  "dict_of items = fold (\<lambda>(k, v). AList.update k v) items []"

section \<open>flatten\<close>

text \<open>
  \<^verbatim>\<open>
  def flatten(dictionary, parent_key=None):
      items = []
      for key, value in dictionary.items():
          if parent_key:
              new_key = list(parent_key) + [key, ]
          else:
              new_key = [key, ]
          new_key = tuple(new_key)
          if isinstance(value, MutableMapping):
              if not value.items():
                  items.append((new_key, None))
              else:
                  items.extend(flatten(value, new_key).items())
          elif isinstance(value, list):
              if len(value):
                  for k, v in enumerate(value):
                      items.extend(flatten({k: v}, new_key).items())
              else:
                  items.append((new_key, None))
          else:
              items.append((new_key, value))
      return dict(items)
  \<close>
  \<open>parent_key\<close> is \<open>None\<close> or a tuple; both \<open>None\<close> and the empty tuple are falsy.
\<close>

fun truthy :: "path option \<Rightarrow> bool" where
  "truthy None = False"
| "truthy (Some p) = (p \<noteq> [])"

function flatten :: "(key \<times> pyval) list \<Rightarrow> path option \<Rightarrow> (path \<times> pyval) list" where
  "flatten dictionary parent_key =
     dict_of (concat (map (\<lambda>(key, value).
       let new_key = (if truthy parent_key then the parent_key @ [key] else [key]) in
       (case value of
          PDict m \<Rightarrow>
            if m = [] then [(new_key, PNone)]
            else flatten m (Some new_key)
        | PList l \<Rightarrow>
            if l \<noteq> [] then
              concat (map (\<lambda>(k, v). flatten [(KInt (int k), v)] (Some new_key)) (enumerate 0 l))
            else [(new_key, PNone)]
        | _ \<Rightarrow> [(new_key, value)])) dictionary))"
  by pat_completeness auto

termination flatten
proof (relation "measure (\<lambda>(d, p). size (PDict d))", goal_cases)
  have in_dict: "size v + 2 < size (PDict m)" if "(k, v) \<in> set m" for k v m
    using that by (induction m) auto
  have in_list: "size v + 1 < size (PList l)" if "v \<in> set l" for v l
    using that by (induction l) auto
  {
    case 1
    show ?case by simp
  next
    case (2 d p x ky vl nk l y k v)
    then show ?case
      using in_list[of v l] in_dict[of ky "PList l" d]
      by (auto simp: in_set_enumerate_eq)
  next
    case (3 d p x ky vl nk m)
    then show ?case
      using in_dict[of ky "PDict m" d] by simp
  }
qed

declare flatten.simps [simp del]

section \<open>flat\_deepdiff\_entry\<close>

text \<open>
  \<^verbatim>\<open>
  def flat_deepdiff_entry(t, path_list):
      path_tuple = tuple(path_list)
      if isinstance(t, dict):
          t1 = flatten(t)
          t1_from_root = {tuple(path_list + list(k)): v for k, v in t1.items()}
      elif isinstance(t, list):
          dummy_header = "DUMMY" * 3
          dummy_t = {dummy_header: t}
          t1 = flatten(dummy_t)
          t1_from_root = {tuple(path_list + list(k)[1:]): v for k, v in t1.items()}
      elif isinstance(t, NotPresent):
          t1_from_root = {path_tuple: None}
      else:
          t1_from_root = {path_tuple: t}
      return t1_from_root
  \<close>
\<close>

definition dummy_header :: string where
  "dummy_header = ''DUMMYDUMMYDUMMY''"

definition flat_deepdiff_entry :: "pyval \<Rightarrow> path \<Rightarrow> (path \<times> pyval) list" where
  "flat_deepdiff_entry t path_list =
     (case t of
        PDict m \<Rightarrow> dict_of (map (\<lambda>(k, v). (path_list @ k, v)) (flatten m None))
      | PList l \<Rightarrow>
          dict_of (map (\<lambda>(k, v). (path_list @ tl k, v))
                       (flatten [(KStr dummy_header, PList l)] None))
      | PNotPresent \<Rightarrow> [(path_list, PNone)]
      | _ \<Rightarrow> [(path_list, t)])"

section \<open>find\_best\_match\<close>

text \<open>
  A distance is a Python number, an \<^verbatim>\<open>int\<close> or a \<^verbatim>\<open>float\<close>. The solver only adds
  distances and compares sums, so the arithmetic is a parameter of the model and nothing
  is assumed about it: \<open>num_zero\<close> is the \<^verbatim>\<open>0\<close> that starts a sum, \<open>num_add\<close> is
  \<^verbatim>\<open>+\<close> (it may raise), \<open>num_less\<close> is \<^verbatim>\<open><\<close>, and \<open>num_less_inf x\<close> is
  \<^verbatim>\<open>x < math.inf\<close>. The running minimum is \<^verbatim>\<open>math.inf\<close> (\<open>MathInf\<close>) until a
  candidate has been accepted, and the sum of that candidate (\<open>Num\<close>) afterwards.
\<close>

record 'n arith =
  num_zero :: 'n
  num_add :: "'n \<Rightarrow> 'n \<Rightarrow> error + 'n"
  num_less :: "'n \<Rightarrow> 'n \<Rightarrow> bool"
  num_less_inf :: "'n \<Rightarrow> bool"

datatype 'n bound = MathInf | Num 'n

definition below :: "'n arith \<Rightarrow> 'n \<Rightarrow> 'n bound \<Rightarrow> bool" where
  "below ops d best =
     (case best of MathInf \<Rightarrow> num_less_inf ops d | Num b \<Rightarrow> num_less ops d b)"

text \<open>
  \<^verbatim>\<open>itertools.permutations(iterable, r)\<close> is the standard library's. Its documentation
  gives it as the \<open>r\<close>-fold product of the positions \<open>range(n)\<close>, in the order of
  \<^verbatim>\<open>itertools.product\<close>, keeping the tuples without a repeated position:
  \<^verbatim>\<open>
  def permutations(iterable, r=None):
      pool = tuple(iterable)
      n = len(pool)
      r = n if r is None else r
      for indices in product(range(n), repeat=r):
          if len(set(indices)) == r:
              yield tuple(pool[i] for i in indices)
  \<close>
\<close>

definition permutations :: "'a list \<Rightarrow> nat \<Rightarrow> 'a list list" where
  "permutations pool r =
     map (map (\<lambda>i. pool ! i))
         (filter distinct (product_lists (replicate r [0..<length pool])))"

text \<open>
  \<^verbatim>\<open>
  def find_best_match(indices1, indices2, distance_matrix):
      match_space = itertools.permutations(indices2, r=len(indices1))
      best_match_distance = math.inf
      best_match_solution = None
      for match in match_space:
          match_distance = 0
          for i1, i2 in zip(indices1, match):
              if i2 is None:
                  continue
              match_distance += distance_matrix[i1][i2]
          if match_distance < best_match_distance:
              best_match_distance = match_distance
              best_match_solution = match
      assert best_match_solution is not None
      return dict(zip(indices1, [*best_match_solution]))
  \<close>
  The distance matrix is indexed twice; a missing row or entry raises. An element of
  \<open>indices2\<close> is an index or \<open>None\<close>, the placeholder. The two variables of the running
  minimum are set together; \<^verbatim>\<open>match_distance < best_match_distance\<close> is \<open>below\<close>.
\<close>

type_synonym 'n matrix = "int \<rightharpoonup> (int \<rightharpoonup> 'n)"

fun match_distance ::
    "'n arith \<Rightarrow> 'n matrix \<Rightarrow> 'n \<Rightarrow> (int \<times> int option) list \<Rightarrow> error + 'n" where
  "match_distance ops dm acc [] = Inr acc"
| "match_distance ops dm acc ((i1, i2) # rest) =
     (case i2 of
        None \<Rightarrow> match_distance ops dm acc rest
      | Some j \<Rightarrow>
          (case dm i1 of
             None \<Rightarrow> Inl KeyError
           | Some row \<Rightarrow>
               (case row j of
                  None \<Rightarrow> Inl KeyError
                | Some x \<Rightarrow>
                    (case num_add ops acc x of
                       Inl e \<Rightarrow> Inl e
                     | Inr s \<Rightarrow> match_distance ops dm s rest))))"

fun search :: "'n arith \<Rightarrow> 'n matrix \<Rightarrow> int list \<Rightarrow> 'n bound \<times> int option list option \<Rightarrow>
    int option list list \<Rightarrow> error + ('n bound \<times> int option list option)" where
  "search ops dm indices1 best [] = Inr best"
| "search ops dm indices1 (best_match_distance, best_match_solution) (match # rest) =
     (case match_distance ops dm (num_zero ops) (zip indices1 match) of
        Inl e \<Rightarrow> Inl e
      | Inr d \<Rightarrow>
          if below ops d best_match_distance
          then search ops dm indices1 (Num d, Some match) rest
          else search ops dm indices1 (best_match_distance, best_match_solution) rest)"

definition find_best_match ::
    "'n arith \<Rightarrow> int list \<Rightarrow> int option list \<Rightarrow> 'n matrix \<Rightarrow> error + (int \<times> int option) list" where
  "find_best_match ops indices1 indices2 distance_matrix =
     (case search ops distance_matrix indices1 (MathInf, None)
             (permutations indices2 (length indices1)) of
        Inl e \<Rightarrow> Inl e
      | Inr (_, None) \<Rightarrow> Inl AssertionError
      | Inr (_, Some best_match_solution) \<Rightarrow>
          Inr (dict_of (zip indices1 best_match_solution)))"

subsection \<open>Python integers\<close>

text \<open>
  Python integers are unbounded: sums are exact, and every integer is below
  \<^verbatim>\<open>math.inf\<close>.
\<close>

definition int_ops :: "int arith" where
  "int_ops = \<lparr>num_zero = 0, num_add = (\<lambda>a b. Inr (a + b)), num_less = (<),
              num_less_inf = (\<lambda>a. True)\<rparr>"

subsection \<open>Python floats\<close>


text \<open>
  Rounding to the nearest float, ties to the even significand. \<open>ilog2 x\<close> is the
  exponent \<open>k\<close> with \<open>2 ^ k \<le> x < 2 ^ (k + 1)\<close> (\<open>ilog2_bounds\<close> below), computed from the
  bit length of an integer; the unit in the last place of \<open>x\<close> is \<open>2 ^ (k - 52)\<close>, and
  \<open>2 ^ - 1074\<close> for a subnormal \<open>x\<close>. A result of magnitude \<open>2 ^ 1024\<close> is an overflow.
\<close>

function bitlen :: "int \<Rightarrow> nat" where
  "bitlen n = (if n \<le> 0 then 0 else Suc (bitlen (n div 2)))"
  by pat_completeness auto

termination bitlen
  by (relation "measure nat") auto

declare bitlen.simps [simp del]

definition pow2 :: "int \<Rightarrow> real" where
  "pow2 e = (if 0 \<le> e then 2 ^ nat e else 1 / 2 ^ nat (- e))"

definition ilog2 :: "real \<Rightarrow> int" where
  "ilog2 x =
     (if 1 \<le> x then int (bitlen \<lfloor>x\<rfloor>) - 1
      else - int (bitlen (\<lceil>1 / x\<rceil> - 1)))"






section \<open>parse\_deepdiff\<close>

text \<open>
  A \<^verbatim>\<open>DiffLevel\<close> of deepdiff's tree view carries the two values \<open>t1\<close> and \<open>t2\<close>
  and, through \<^verbatim>\<open>path(output_format='list', use_t2=...)\<close>, the path to each.
  \<^verbatim>\<open>dd.to_dict()\<close> maps a report key to a set of levels, and the key
  \<^verbatim>\<open>'deep_distance'\<close> to a number. \<^verbatim>\<open>REPORT_KEYS\<close> is a constant of deepdiff
  and is a parameter here.
  \<^verbatim>\<open>
  def parse_deepdiff(dd: DeepDiff):
      deep_distance = 0
      paths_added = []
      ... (seven more empty lists)
      for dd_report_key, v in dd.to_dict().items():
          if dd_report_key == DeepDiffKey.deep_distance.value:
              deep_distance = v
              continue
          assert dd_report_key in REPORT_KEYS
          for value_altered_level in v:
              is_t1_none = isinstance(value_altered_level.t1, NotPresent)
              is_t2_none = isinstance(value_altered_level.t2, NotPresent)
              path_list_to_t1 = value_altered_level.path(output_format='list', use_t2=False)
              path_list_to_t2 = value_altered_level.path(output_format='list', use_t2=True)
              t1_leafs_from_root = flat_deepdiff_entry(value_altered_level.t1, path_list_to_t1)
              t2_leafs_from_root = flat_deepdiff_entry(value_altered_level.t2, path_list_to_t2)
              if is_t1_none and not is_t2_none:
                  paths_added.append(path_list_to_t2)
                  leaf_paths_added += list(t2_leafs_from_root.keys())
              elif not is_t1_none and is_t2_none:
                  paths_removed.append(path_list_to_t1)
                  leaf_paths_removed += list(t1_leafs_from_root.keys())
              elif not is_t1_none and not is_t2_none:
                  paths_altered_1.append(path_list_to_t1)
                  paths_altered_2.append(path_list_to_t2)
                  leaf_paths_altered_1 += list(t1_leafs_from_root.keys())
                  leaf_paths_altered_2 += list(t2_leafs_from_root.keys())
              else:
                  raise ValueError
      return (deep_distance, paths_added, ..., leaf_paths_altered_2)
  \<close>
\<close>

record diff_level =
  t1 :: pyval
  t2 :: pyval
  path_t1 :: path
  path_t2 :: path

datatype report_value = Levels "diff_level list" | Number real

record parsed =
  deep_distance :: report_value
  paths_added :: "path list"
  paths_removed :: "path list"
  paths_altered_1 :: "path list"
  paths_altered_2 :: "path list"
  leaf_paths_added :: "path list"
  leaf_paths_removed :: "path list"
  leaf_paths_altered_1 :: "path list"
  leaf_paths_altered_2 :: "path list"

definition init_parsed :: parsed where
  "init_parsed = \<lparr>deep_distance = Number 0,
     paths_added = [], paths_removed = [], paths_altered_1 = [], paths_altered_2 = [],
     leaf_paths_added = [], leaf_paths_removed = [],
     leaf_paths_altered_1 = [], leaf_paths_altered_2 = []\<rparr>"

definition is_NotPresent :: "pyval \<Rightarrow> bool" where
  "is_NotPresent v = (v = PNotPresent)"

text \<open>The body of the inner loop, for one level.\<close>

definition classify_level :: "parsed \<Rightarrow> diff_level \<Rightarrow> error + parsed" where
  "classify_level s value_altered_level =
     (let is_t1_none = is_NotPresent (t1 value_altered_level);
          is_t2_none = is_NotPresent (t2 value_altered_level);
          path_list_to_t1 = path_t1 value_altered_level;
          path_list_to_t2 = path_t2 value_altered_level;
          t1_leafs_from_root = flat_deepdiff_entry (t1 value_altered_level) path_list_to_t1;
          t2_leafs_from_root = flat_deepdiff_entry (t2 value_altered_level) path_list_to_t2
      in
        if is_t1_none \<and> \<not> is_t2_none then
          Inr (s\<lparr>paths_added := paths_added s @ [path_list_to_t2],
                 leaf_paths_added := leaf_paths_added s @ map fst t2_leafs_from_root\<rparr>)
        else if \<not> is_t1_none \<and> is_t2_none then
          Inr (s\<lparr>paths_removed := paths_removed s @ [path_list_to_t1],
                 leaf_paths_removed := leaf_paths_removed s @ map fst t1_leafs_from_root\<rparr>)
        else if \<not> is_t1_none \<and> \<not> is_t2_none then
          Inr (s\<lparr>paths_altered_1 := paths_altered_1 s @ [path_list_to_t1],
                 paths_altered_2 := paths_altered_2 s @ [path_list_to_t2],
                 leaf_paths_altered_1 := leaf_paths_altered_1 s @ map fst t1_leafs_from_root,
                 leaf_paths_altered_2 := leaf_paths_altered_2 s @ map fst t2_leafs_from_root\<rparr>)
        else Inl ValueError)"

fun classify_levels :: "parsed \<Rightarrow> diff_level list \<Rightarrow> error + parsed" where
  "classify_levels s [] = Inr s"
| "classify_levels s (lv # lvs) =
     (case classify_level s lv of
        Inl e \<Rightarrow> Inl e
      | Inr s' \<Rightarrow> classify_levels s' lvs)"

fun parse_items :: "string set \<Rightarrow> parsed \<Rightarrow> (string \<times> report_value) list \<Rightarrow> error + parsed" where
  "parse_items REPORT_KEYS s [] = Inr s"
| "parse_items REPORT_KEYS s ((dd_report_key, v) # rest) =
     (if dd_report_key = ''deep_distance''
      then parse_items REPORT_KEYS (s\<lparr>deep_distance := v\<rparr>) rest
      else if dd_report_key \<notin> REPORT_KEYS then Inl AssertionError
      else (case v of
              Number x \<Rightarrow> Inl TypeError
            | Levels lvs \<Rightarrow>
                (case classify_levels s lvs of
                   Inl e \<Rightarrow> Inl e
                 | Inr s' \<Rightarrow> parse_items REPORT_KEYS s' rest)))"

definition parse_deepdiff :: "string set \<Rightarrow> (string \<times> report_value) list \<Rightarrow> error + parsed" where
  "parse_deepdiff REPORT_KEYS dd = parse_items REPORT_KEYS init_parsed dd"

section \<open>Notions used by the properties\<close>

text \<open>A scalar leaf: not a mapping, not a sequence, not the sentinel.\<close>

fun is_scalar :: "pyval \<Rightarrow> bool" where
  "is_scalar (PDict m) = False"
| "is_scalar (PList l) = False"
| "is_scalar PNotPresent = False"
| "is_scalar _ = True"

text \<open>The path prefix that \<open>flatten\<close> puts in front of a key.\<close>

fun pre :: "path option \<Rightarrow> path" where
  "pre None = []"
| "pre (Some p) = p"

text \<open>
  The leaves below a value, with paths relative to the value: an empty container is one
  \<open>None\<close> leaf at the empty path, a scalar is one leaf at the empty path. This is what
  \<open>flatten\<close> computes for the value under a key (shown below as \<open>flatten_rel_leaves\<close>).
\<close>

function rel_leaves :: "pyval \<Rightarrow> (path \<times> pyval) list" where
  "rel_leaves (PDict m) =
     (if m = [] then [([], PNone)]
      else concat (map (\<lambda>kv. map (\<lambda>qx. (fst kv # fst qx, snd qx)) (rel_leaves (snd kv))) m))"
| "rel_leaves (PList l) =
     (if l = [] then [([], PNone)]
      else concat (map (\<lambda>iv. map (\<lambda>qx. (KInt (int (fst iv)) # fst qx, snd qx)) (rel_leaves (snd iv)))
                       (enumerate 0 l)))"
| "rel_leaves PNone = [([], PNone)]"
| "rel_leaves (PBool b) = [([], PBool b)]"
| "rel_leaves (PInt i) = [([], PInt i)]"
| "rel_leaves (PStr s) = [([], PStr s)]"
| "rel_leaves PNotPresent = [([], PNotPresent)]"
  by pat_completeness auto

termination rel_leaves
proof (relation "measure size", goal_cases)
  have in_list: "size v < size (PList l)" if "v \<in> set l" for v l
    using that by (induction l) auto
  {
    case 1
    show ?case by simp
  next
    case (2 m kv)
    then show ?case
      by (cases kv) (auto simp: less_Suc_eq_le size_list_estimation')
  next
    case (3 l iv)
    then show ?case
      using in_list[of "snd iv" l] by (cases iv) (auto simp: in_set_enumerate_eq)
  }
qed

text \<open>
  The number of scalar (non-mapping, non-sequence) values reached by walking a value, and
  the number of empty containers met on the way (the value itself included).
\<close>

fun count_scalars :: "pyval \<Rightarrow> nat" where
  "count_scalars (PDict m) = sum_list (map (\<lambda>kv. count_scalars (snd kv)) m)"
| "count_scalars (PList l) = sum_list (map count_scalars l)"
| "count_scalars v = 1"

fun count_empty :: "pyval \<Rightarrow> nat" where
  "count_empty (PDict m) = (if m = [] then 1 else sum_list (map (\<lambda>kv. count_empty (snd kv)) m))"
| "count_empty (PList l) = (if l = [] then 1 else sum_list (map count_empty l))"
| "count_empty v = 0"

text \<open>
  The value at a path: a key selects in a mapping, a non-negative integer in a sequence.
\<close>

fun value_at :: "pyval \<Rightarrow> path \<Rightarrow> pyval option" where
  "value_at v [] = Some v"
| "value_at (PDict m) (k # q) =
     (case map_of m k of None \<Rightarrow> None | Some v \<Rightarrow> value_at v q)"
| "value_at (PList l) (KInt i # q) =
     (if 0 \<le> i \<and> nat i < length l then value_at (l ! nat i) q else None)"
| "value_at v (k # q) = None"

text \<open>
  A flattened dictionary as a Python value again: its keys are the path tuples.
\<close>

definition as_dict :: "(path \<times> pyval) list \<Rightarrow> (key \<times> pyval) list" where
  "as_dict flat = map (\<lambda>(p, v). (KTuple p, v)) flat"

text \<open>The empty containers strictly below the top-level mapping.\<close>

definition count_empty_below :: "(key \<times> pyval) list \<Rightarrow> nat" where
  "count_empty_below d = sum_list (map (\<lambda>kv. count_empty (snd kv)) d)"

text \<open>
  Python's \<^verbatim>\<open>==\<close> on these values: two mappings are equal when they have the same
  number of entries and every key of the first is in the second with an equal value,
  whatever the insertion order; two sequences are equal elementwise.
\<close>

function py_eq :: "pyval \<Rightarrow> pyval \<Rightarrow> bool" where
  "py_eq (PDict m1) b =
     (case b of
        PDict m2 \<Rightarrow>
          length m1 = length m2 \<and>
          (\<forall>kv \<in> set m1. case map_of m2 (fst kv) of None \<Rightarrow> False | Some v2 \<Rightarrow> py_eq (snd kv) v2)
      | _ \<Rightarrow> False)"
| "py_eq (PList l1) b =
     (case b of
        PList l2 \<Rightarrow> length l1 = length l2 \<and> (\<forall>i \<in> set [0..<length l1]. py_eq (l1 ! i) (l2 ! i))
      | _ \<Rightarrow> False)"
| "py_eq PNone b = (b = PNone)"
| "py_eq (PBool x) b = (b = PBool x)"
| "py_eq (PInt x) b = (b = PInt x)"
| "py_eq (PStr x) b = (b = PStr x)"
| "py_eq PNotPresent b = (b = PNotPresent)"
  by pat_completeness auto

termination py_eq
proof (relation "measure (\<lambda>(a, b). size a)", goal_cases)
  have in_list: "size v < size (PList l)" if "v \<in> set l" for v l
    using that by (induction l) auto
  {
    case 1
    show ?case by simp
  next
    case (2 m1 b m2 kv v2)
    then show ?case
      by (cases kv) (auto simp: less_Suc_eq_le size_list_estimation')
  next
    case (3 l1 b l2 i)
    then show ?case
      using in_list[of "l1 ! i" l1] by auto
  }
qed

text \<open>A sequence seen as the mapping from its indices to its elements.\<close>

definition list_items :: "pyval list \<Rightarrow> (key \<times> pyval) list" where
  "list_items l = map (\<lambda>iv. (KInt (int (fst iv)), snd iv)) (enumerate 0 l)"

text \<open>A container: a mapping or a sequence.\<close>

fun is_container :: "pyval \<Rightarrow> bool" where
  "is_container (PDict m) = True"
| "is_container (PList l) = True"
| "is_container v = False"












text \<open>
  For the diff classifier: the three classes of a level and the invalid state; the leaf
  paths of each side; the levels of a report in the order of iteration (the entry under
  \<^verbatim>\<open>'deep_distance'\<close> holds no level); the last deep-distance value of a report; a
  report whose keys are all known and hold levels; and the accumulators after a list of
  levels.
\<close>

definition is_added :: "diff_level \<Rightarrow> bool" where
  "is_added lv = (t1 lv = PNotPresent \<and> t2 lv \<noteq> PNotPresent)"

definition is_removed :: "diff_level \<Rightarrow> bool" where
  "is_removed lv = (t1 lv \<noteq> PNotPresent \<and> t2 lv = PNotPresent)"

definition is_altered :: "diff_level \<Rightarrow> bool" where
  "is_altered lv = (t1 lv \<noteq> PNotPresent \<and> t2 lv \<noteq> PNotPresent)"

definition both_absent :: "diff_level \<Rightarrow> bool" where
  "both_absent lv = (t1 lv = PNotPresent \<and> t2 lv = PNotPresent)"

definition leafs_t1 :: "diff_level \<Rightarrow> path list" where
  "leafs_t1 lv = map fst (flat_deepdiff_entry (t1 lv) (path_t1 lv))"

definition leafs_t2 :: "diff_level \<Rightarrow> path list" where
  "leafs_t2 lv = map fst (flat_deepdiff_entry (t2 lv) (path_t2 lv))"

fun levels_of :: "(string \<times> report_value) list \<Rightarrow> diff_level list" where
  "levels_of [] = []"
| "levels_of ((k, v) # rest) =
     (if k = ''deep_distance'' then levels_of rest
      else (case v of Levels lvs \<Rightarrow> lvs @ levels_of rest | Number x \<Rightarrow> levels_of rest))"

fun last_distance :: "report_value \<Rightarrow> (string \<times> report_value) list \<Rightarrow> report_value" where
  "last_distance d0 [] = d0"
| "last_distance d0 ((k, v) # rest) =
     (if k = ''deep_distance'' then last_distance v rest else last_distance d0 rest)"

fun is_levels :: "report_value \<Rightarrow> bool" where
  "is_levels (Levels lvs) = True"
| "is_levels (Number x) = False"

definition well_formed_report :: "string set \<Rightarrow> (string \<times> report_value) list \<Rightarrow> bool" where
  "well_formed_report REPORT_KEYS dd =
     list_all (\<lambda>(k, v). k = ''deep_distance'' \<or> (k \<in> REPORT_KEYS \<and> is_levels v)) dd"

definition extend :: "parsed \<Rightarrow> diff_level list \<Rightarrow> parsed" where
  "extend s lvs =
     \<lparr>deep_distance = deep_distance s,
      paths_added = paths_added s @ map path_t2 (filter is_added lvs),
      paths_removed = paths_removed s @ map path_t1 (filter is_removed lvs),
      paths_altered_1 = paths_altered_1 s @ map path_t1 (filter is_altered lvs),
      paths_altered_2 = paths_altered_2 s @ map path_t2 (filter is_altered lvs),
      leaf_paths_added = leaf_paths_added s @ concat (map leafs_t2 (filter is_added lvs)),
      leaf_paths_removed = leaf_paths_removed s @ concat (map leafs_t1 (filter is_removed lvs)),
      leaf_paths_altered_1 = leaf_paths_altered_1 s @ concat (map leafs_t1 (filter is_altered lvs)),
      leaf_paths_altered_2 = leaf_paths_altered_2 s @ concat (map leafs_t2 (filter is_altered lvs))\<rparr>"

section \<open>Basic facts\<close>

lemma dict_of_Nil [simp]: "dict_of [] = []"
  by (simp add: dict_of_def)

lemma dict_of_single [simp]: "dict_of [kv] = [kv]"
  by (cases kv) (simp add: dict_of_def)

lemma flatten_Nil [simp]: "flatten [] parent = []"
  by (simp add: flatten.simps)

lemma flatten_dummy_empty: "flatten [(k, PList [])] None = [([k], PNone)]"
  by (simp add: flatten.simps)

lemma set_product_lists_replicate:
  "set (product_lists (replicate r ys)) = {xs. length xs = r \<and> set xs \<subseteq> set ys}"
proof (induction r)
  case 0
  show ?case by auto
next
  case (Suc r)
  show ?case
    by (auto simp: Suc length_Suc_conv)
qed


lemma perms_too_long: "length pool < r \<Longrightarrow> permutations pool r = []"
proof -
  assume less: "length pool < r"
  have "\<not> distinct xs" if "xs \<in> set (product_lists (replicate r [0..<length pool]))" for xs
  proof
    assume d: "distinct xs"
    from that have len: "length xs = r" and sub: "set xs \<subseteq> {0..<length pool}"
      by (auto simp: set_product_lists_replicate)
    from sub have "card (set xs) \<le> length pool"
      using card_mono[of "{0..<length pool}" "set xs"] by simp
    with d len less show False
      by (simp add: distinct_card)
  qed
  then show ?thesis
    by (simp add: permutations_def filter_empty_conv)
qed

lemma update_fresh: "k \<notin> fst ` set al \<Longrightarrow> AList.update k v al = al @ [(k, v)]"
  by (induction al) auto

lemma fold_update_distinct:
  "distinct (map fst (acc @ xs)) \<Longrightarrow> fold (\<lambda>(k, v). AList.update k v) xs acc = acc @ xs"
proof (induction xs arbitrary: acc)
  case Nil
  show ?case by simp
next
  case (Cons kv xs)
  obtain k v where kv: "kv = (k, v)" by (cases kv)
  from Cons.prems have fresh: "k \<notin> fst ` set acc" and d: "distinct (map fst ((acc @ [(k, v)]) @ xs))"
    by (auto simp: kv)
  show ?case
    using Cons.IH[OF d] by (simp add: kv update_fresh[OF fresh])
qed

lemma dict_of_distinct: "distinct (map fst xs) \<Longrightarrow> dict_of xs = xs"
  using fold_update_distinct[of "[]" xs] by (simp add: dict_of_def)

lemma distinct_fold_update:
  "distinct (map fst acc) \<Longrightarrow> distinct (map fst (fold (\<lambda>(k, v). AList.update k v) xs acc))"
  by (induction xs arbitrary: acc) (auto simp: AList.distinct_update)

lemma distinct_dict_of: "distinct (map fst (dict_of xs))"
  by (simp add: dict_of_def distinct_fold_update)

lemma set_update_subset: "set (AList.update k v al) \<subseteq> insert (k, v) (set al)"
  by (induction al) auto

lemma set_fold_update:
  "set (fold (\<lambda>(k, v). AList.update k v) xs acc) \<subseteq> set acc \<union> set xs"
proof (induction xs arbitrary: acc)
  case Nil
  show ?case by simp
next
  case (Cons kv xs)
  obtain k v where kv: "kv = (k, v)" by (cases kv)
  show ?case
    using Cons[of "AList.update k v acc"] set_update_subset[of k v acc]
    by (auto simp: kv)
qed

lemma set_dict_of: "set (dict_of xs) \<subseteq> set xs"
  using set_fold_update[of xs "[]"] by (simp add: dict_of_def)

lemma distinct_prefixed_concat:
  assumes "distinct (map g xs)" and "\<And>x. x \<in> set xs \<Longrightarrow> distinct (map fst (f x))"
  shows "distinct (map fst (concat (map (\<lambda>x. map (\<lambda>qx. (P @ g x # fst qx, snd qx)) (f x)) xs)))"
  using assms
proof (induction xs)
  case Nil
  show ?case by simp
next
  case (Cons x xs)
  have "distinct (map fst (map (\<lambda>qx. (P @ g x # fst qx, snd qx)) (f x)))"
    using Cons.prems(2)[of x] by (simp add: distinct_map comp_def inj_on_def)
  moreover have "distinct (map fst (concat (map (\<lambda>x. map (\<lambda>qx. (P @ g x # fst qx, snd qx)) (f x)) xs)))"
    using Cons by simp
  moreover have "g x \<notin> g ` set xs"
    using Cons.prems(1) by simp
  ultimately show ?case
    by (auto simp: comp_def)
qed

lemma distinct_rel_leaves: "wf_val v \<Longrightarrow> distinct (map fst (rel_leaves v))"
proof (induction v rule: rel_leaves.induct)
  case (1 m)
  show ?case
  proof (cases "m = []")
    case True
    then show ?thesis by simp
  next
    case False
    have "distinct (map fst (concat (map (\<lambda>kv. map (\<lambda>qx. ([] @ fst kv # fst qx, snd qx))
            (rel_leaves (snd kv))) m)))"
      using 1 False by (intro distinct_prefixed_concat) auto
    with False show ?thesis by simp
  qed
next
  case (2 l)
  show ?case
  proof (cases "l = []")
    case True
    then show ?thesis by simp
  next
    case False
    have d: "distinct (map (\<lambda>iv. KInt (int (fst iv))) (enumerate 0 l))"
      by (auto simp: distinct_map inj_on_def in_set_enumerate_eq)
    have "distinct (map fst (concat (map (\<lambda>iv. map (\<lambda>qx. ([] @ KInt (int (fst iv)) # fst qx, snd qx))
            (rel_leaves (snd iv))) (enumerate 0 l))))"
      using 2 False d
      by (intro distinct_prefixed_concat) (auto simp: in_set_enumerate_eq)
    with False show ?thesis by simp
  qed
qed simp_all

lemma new_key_pre:
  "(if truthy parent_key then the parent_key @ [k] else [k]) = pre parent_key @ [k]"
  by (cases parent_key) auto

lemma map_prefix_rel_leaves_dict:
  "m \<noteq> [] \<Longrightarrow>
   concat (map (\<lambda>kv. map (\<lambda>qx. ((P @ [k]) @ fst kv # fst qx, snd qx)) (rel_leaves (snd kv))) m)
   = map (\<lambda>qx. (P @ k # fst qx, snd qx)) (rel_leaves (PDict m))"
  by (simp add: map_concat comp_def)

lemma map_prefix_rel_leaves_list:
  "l \<noteq> [] \<Longrightarrow>
   concat (map (\<lambda>iv. map (\<lambda>qx. ((P @ [k]) @ KInt (int (fst iv)) # fst qx, snd qx)) (rel_leaves (snd iv)))
               (enumerate 0 l))
   = map (\<lambda>qx. (P @ k # fst qx, snd qx)) (rel_leaves (PList l))"
  by (simp add: map_concat comp_def)

lemma flatten_rel_leaves:
  "wf_val (PDict d) \<Longrightarrow>
   flatten d parent =
     concat (map (\<lambda>kv. map (\<lambda>qx. (pre parent @ fst kv # fst qx, snd qx)) (rel_leaves (snd kv))) d)"
proof (induction d parent rule: flatten.induct)
  case (1 dictionary parent_key)
  let ?P = "pre parent_key"
  let ?inner = "\<lambda>(key, value).
       let new_key = (if truthy parent_key then the parent_key @ [key] else [key]) in
       (case value of
          PDict m \<Rightarrow>
            if m = [] then [(new_key, PNone)]
            else flatten m (Some new_key)
        | PList l \<Rightarrow>
            if l \<noteq> [] then
              concat (map (\<lambda>(k, v). flatten [(KInt (int k), v)] (Some new_key)) (enumerate 0 l))
            else [(new_key, PNone)]
        | _ \<Rightarrow> [(new_key, value)])"
  let ?goal = "\<lambda>kv. map (\<lambda>qx. (?P @ fst kv # fst qx, snd qx)) (rel_leaves (snd kv))"
  have inner: "?inner kv = ?goal kv" if kv: "kv \<in> set dictionary" for kv
  proof -
    obtain k v where eq: "kv = (k, v)" by (cases kv)
    from kv "1.prems" have wfv: "wf_val v" by (auto simp: eq)
    show ?thesis
    proof (cases v)
      case (PDict m)
      show ?thesis
      proof (cases "m = []")
        case True
        then show ?thesis by (simp add: eq PDict new_key_pre)
      next
        case False
        have "flatten m (Some (?P @ [k])) =
                concat (map (\<lambda>kv. map (\<lambda>qx. ((?P @ [k]) @ fst kv # fst qx, snd qx))
                  (rel_leaves (snd kv))) m)"
          using "1.IH"(2)[of kv k v "?P @ [k]" m] kv wfv False
          by (simp add: eq PDict new_key_pre)
        then show ?thesis
          using map_prefix_rel_leaves_dict[OF False, of ?P k]
          by (simp add: eq PDict new_key_pre False)
      qed
    next
      case (PList l)
      show ?thesis
      proof (cases "l = []")
        case True
        then show ?thesis by (simp add: eq PList new_key_pre)
      next
        case False
        have each: "flatten [(KInt (int i), w)] (Some (?P @ [k])) =
                map (\<lambda>qx. ((?P @ [k]) @ KInt (int i) # fst qx, snd qx)) (rel_leaves w)"
          if "(i, w) \<in> set (enumerate 0 l)" for i w
        proof -
          from that have "w \<in> set l" by (auto simp: in_set_enumerate_eq)
          with wfv have "wf_val (PDict [(KInt (int i), w)])" by (simp add: PList)
          then show ?thesis
            using "1.IH"(1)[of kv k v "?P @ [k]" l "(i, w)" i w] kv False that
            by (simp add: eq PList new_key_pre)
        qed
        have "concat (map (\<lambda>(i, w). flatten [(KInt (int i), w)] (Some (?P @ [k]))) (enumerate 0 l))
            = concat (map (\<lambda>iv. map (\<lambda>qx. ((?P @ [k]) @ KInt (int (fst iv)) # fst qx, snd qx))
                (rel_leaves (snd iv))) (enumerate 0 l))"
          by (rule arg_cong[where f = concat], rule map_cong) (auto simp: each)
        then show ?thesis
          using map_prefix_rel_leaves_list[OF False, of ?P k]
          by (simp add: eq PList new_key_pre False)
      qed
    qed (simp_all add: eq new_key_pre)
  qed
  have "concat (map ?inner dictionary) = concat (map ?goal dictionary)"
    by (rule arg_cong[where f = concat], rule map_cong) (auto simp: inner)
  moreover have "distinct (map fst (concat (map ?goal dictionary)))"
    using "1.prems" by (intro distinct_prefixed_concat) (auto simp: distinct_rel_leaves)
  ultimately show ?case
    by (subst flatten.simps) (simp add: dict_of_distinct)
qed

lemma length_concat_map: "length (concat (map f xs)) = sum_list (map (\<lambda>x. length (f x)) xs)"
  by (induction xs) auto

lemma sum_list_enumerate: "sum_list (map (\<lambda>iv. f (snd iv)) (enumerate n l)) = sum_list (map f l)"
  by (induction l arbitrary: n) auto

lemma length_rel_leaves: "length (rel_leaves v) = count_scalars v + count_empty v"
proof (induction v rule: rel_leaves.induct)
  case (1 m)
  show ?case
  proof (cases "m = []")
    case True
    then show ?thesis by simp
  next
    case False
    have "sum_list (map (\<lambda>kv. length (rel_leaves (snd kv))) m)
        = sum_list (map (\<lambda>kv. count_scalars (snd kv) + count_empty (snd kv)) m)"
      by (rule arg_cong[where f = sum_list], rule map_cong) (auto simp: 1 False)
    then show ?thesis
      using False by (simp add: length_concat_map sum_list_addf)
  qed
next
  case (2 l)
  show ?case
  proof (cases "l = []")
    case True
    then show ?thesis by simp
  next
    case False
    have "sum_list (map (\<lambda>iv. length (rel_leaves (snd iv))) (enumerate 0 l))
        = sum_list (map (\<lambda>iv. count_scalars (snd iv) + count_empty (snd iv)) (enumerate 0 l))"
      by (rule arg_cong[where f = sum_list], rule map_cong) (auto simp: 2 False)
    also have "\<dots> = sum_list (map (\<lambda>v. count_scalars v + count_empty v) l)"
      by (rule sum_list_enumerate)
    finally show ?thesis
      using False by (simp add: length_concat_map sum_list_addf)
  qed
qed simp_all

lemma value_at_leaf:
  "wf_val v \<Longrightarrow> value_at v q = Some e \<Longrightarrow> e = PDict [] \<or> e = PList [] \<Longrightarrow>
   (q, PNone) \<in> set (rel_leaves v)"
proof (induction q arbitrary: v)
  case Nil
  then show ?case by auto
next
  case (Cons k q)
  show ?case
  proof (cases v)
    case (PDict m)
    with Cons.prems obtain w where w: "map_of m k = Some w" "value_at w q = Some e"
      by (auto split: option.splits)
    then have mem: "(k, w) \<in> set m" by (auto dest: map_of_SomeD)
    with Cons.prems(1) have "wf_val w" by (auto simp: PDict)
    then have "(q, PNone) \<in> set (rel_leaves w)"
      using Cons.IH w(2) Cons.prems(3) by blast
    with mem show ?thesis
      by (force simp: PDict)
  next
    case (PList l)
    with Cons.prems obtain i where i: "k = KInt i" "0 \<le> i" "nat i < length l"
        "value_at (l ! nat i) q = Some e"
      by (cases k) (auto split: if_splits)
    with Cons.prems(1) have "wf_val (l ! nat i)" by (auto simp: PList)
    then have "(q, PNone) \<in> set (rel_leaves (l ! nat i))"
      using Cons.IH i(4) Cons.prems(3) by blast
    moreover have "(nat i, l ! nat i) \<in> set (enumerate 0 l)"
      using i by (simp add: in_set_enumerate_eq)
    ultimately show ?thesis
      using i by (force simp: PList)
  qed (use Cons.prems in auto)
qed

lemma filter_key_distinct:
  "distinct (map fst xs) \<Longrightarrow> (p, x) \<in> set xs \<Longrightarrow> filter (\<lambda>e. fst e = p) xs = [(p, x)]"
proof (induction xs)
  case Nil
  then show ?case by simp
next
  case (Cons a xs)
  show ?case
  proof (cases "a = (p, x)")
    case True
    with Cons.prems have "\<forall>e \<in> set xs. fst e \<noteq> p" by force
    then have "filter (\<lambda>e. fst e = p) xs = []" by (simp add: filter_empty_conv)
    with True show ?thesis by simp
  next
    case False
    with Cons.prems have "(p, x) \<in> set xs" by simp
    then have "p \<in> fst ` set xs" by force
    with Cons.prems(1) have "fst a \<noteq> p" by auto
    with Cons \<open>(p, x) \<in> set xs\<close> show ?thesis by simp
  qed
qed

lemma distinct_flatten: "distinct (map fst (flatten d parent))"
  by (subst flatten.simps) (rule distinct_dict_of)

lemma flatten_scalar_values:
  "(q, x) \<in> set (flatten d parent) \<Longrightarrow> \<not> is_container x"
proof (induction d parent arbitrary: q x rule: flatten.induct)
  case (1 dictionary parent_key)
  let ?inner = "\<lambda>(key, value).
       let new_key = (if truthy parent_key then the parent_key @ [key] else [key]) in
       (case value of
          PDict m \<Rightarrow>
            if m = [] then [(new_key, PNone)]
            else flatten m (Some new_key)
        | PList l \<Rightarrow>
            if l \<noteq> [] then
              concat (map (\<lambda>(k, v). flatten [(KInt (int k), v)] (Some new_key)) (enumerate 0 l))
            else [(new_key, PNone)]
        | _ \<Rightarrow> [(new_key, value)])"
  from "1.prems" have "(q, x) \<in> set (dict_of (concat (map ?inner dictionary)))"
    by (subst (asm) flatten.simps)
  then have "(q, x) \<in> set (concat (map ?inner dictionary))"
    using set_dict_of by blast
  then obtain kv where kv: "kv \<in> set dictionary" "(q, x) \<in> set (?inner kv)"
    by auto
  obtain k v where eq: "kv = (k, v)" by (cases kv)
  show ?case
  proof (cases v)
    case (PDict m)
    show ?thesis
    proof (cases "m = []")
      case True
      with kv show ?thesis by (simp add: eq PDict)
    next
      case False
      with kv have "(q, x) \<in> set (flatten m (Some (pre parent_key @ [k])))"
        by (simp add: eq PDict new_key_pre)
      then show ?thesis
        using "1.IH"(2)[of kv k v "pre parent_key @ [k]" m q x] kv(1) False
        by (simp add: eq PDict new_key_pre)
    qed
  next
    case (PList l)
    show ?thesis
    proof (cases "l = []")
      case True
      with kv show ?thesis by (simp add: eq PList)
    next
      case False
      with kv obtain i w where iw: "(i, w) \<in> set (enumerate 0 l)"
          "(q, x) \<in> set (flatten [(KInt (int i), w)] (Some (pre parent_key @ [k])))"
        by (auto simp: eq PList new_key_pre)
      then show ?thesis
        using "1.IH"(1)[of kv k v "pre parent_key @ [k]" l "(i, w)" i w q x] kv(1) False
        by (simp add: eq PList new_key_pre)
    qed
  qed (use kv in \<open>auto simp: eq\<close>)
qed

lemma flatten_flat:
  assumes "distinct (map fst F)" and "\<And>k v. (k, v) \<in> set F \<Longrightarrow> \<not> is_container v"
  shows "flatten F None = map (\<lambda>(k, v). ([k], v)) F"
proof -
  let ?inner = "\<lambda>(key, value).
       let new_key = (if truthy None then the None @ [key] else [key]) in
       (case value of
          PDict m \<Rightarrow>
            if m = [] then [(new_key, PNone)]
            else flatten m (Some new_key)
        | PList l \<Rightarrow>
            if l \<noteq> [] then
              concat (map (\<lambda>(k, v). flatten [(KInt (int k), v)] (Some new_key)) (enumerate 0 l))
            else [(new_key, PNone)]
        | _ \<Rightarrow> [(new_key, value)])"
  have inner: "?inner kv = [(\<lambda>(k, v). ([k], v)) kv]" if "kv \<in> set F" for kv
  proof -
    obtain k v where eq: "kv = (k, v)" by (cases kv)
    with that assms(2) have "\<not> is_container v" by blast
    then show ?thesis by (cases v) (simp_all add: eq)
  qed
  have "map ?inner F = map (\<lambda>kv. [(\<lambda>(k, v). ([k], v)) kv]) F"
    by (rule map_cong[OF refl]) (rule inner)
  then have "concat (map ?inner F) = concat (map (\<lambda>kv. [(\<lambda>(k, v). ([k], v)) kv]) F)"
    by (rule arg_cong)
  also have "\<dots> = map (\<lambda>(k, v). ([k], v)) F"
    by (induction F) auto
  finally have items: "concat (map ?inner F) = map (\<lambda>(k, v). ([k], v)) F" .
  have "map fst (map (\<lambda>(k, v). ([k], v)) F) = map (\<lambda>k. [k]) (map fst F)"
    by (induction F) auto
  then have "distinct (map fst (map (\<lambda>(k, v). ([k], v)) F))"
    using assms(1) by (simp only: distinct_map) (simp add: inj_on_def)
  then show ?thesis
    by (subst flatten.simps) (simp only: items dict_of_distinct)
qed

lemma map_of_prefixed:
  "map_of (map (\<lambda>qx. (c # fst qx, snd qx)) ys) q =
     (case q of [] \<Rightarrow> None | k # q' \<Rightarrow> if k = c then map_of ys q' else None)"
  by (induction ys) (auto split: list.splits)

lemma map_of_leaves_dict:
  "distinct (map fst m) \<Longrightarrow>
   map_of (concat (map (\<lambda>kv. map (\<lambda>qx. (fst kv # fst qx, snd qx)) (rel_leaves (snd kv))) m)) q =
     (case q of [] \<Rightarrow> None
      | k # q' \<Rightarrow> (case map_of m k of None \<Rightarrow> None | Some v \<Rightarrow> map_of (rel_leaves v) q'))"
proof (induction m arbitrary: q)
  case Nil
  show ?case by (simp split: list.splits)
next
  case (Cons kv m)
  obtain k0 v0 where kv: "kv = (k0, v0)" by (cases kv)
  from Cons.prems have none: "map_of m k0 = None"
    by (simp add: kv map_of_eq_None_iff)
  have IH: "map_of (concat (map (\<lambda>kv. map (\<lambda>qx. (fst kv # fst qx, snd qx))
        (rel_leaves (snd kv))) m)) p =
     (case p of [] \<Rightarrow> None
      | k # q' \<Rightarrow> (case map_of m k of None \<Rightarrow> None | Some v \<Rightarrow> map_of (rel_leaves v) q'))" for p
    using Cons by simp
  show ?case
    by (cases q) (auto simp: kv map_add_def map_of_prefixed IH none split: option.splits)
qed

lemma leaves_list_as_dict: "rel_leaves (PList l) = rel_leaves (PDict (list_items l))"
  by (cases "l = []") (simp_all add: list_items_def comp_def enumerate_eq_zip)

lemma distinct_list_items: "distinct (map fst (list_items l))"
  by (auto simp: list_items_def distinct_map inj_on_def in_set_enumerate_eq comp_def)

lemma map_of_items_from:
  "map_of (map (\<lambda>iv. (KInt (int (fst iv)), snd iv)) (enumerate n l)) (KInt i) =
     (if int n \<le> i \<and> i < int n + int (length l) then Some (l ! (nat i - n)) else None)"
proof (induction l arbitrary: n)
  case Nil
  show ?case by simp
next
  case (Cons x l)
  show ?case
  proof (cases "i = int n")
    case True
    then show ?thesis by simp
  next
    case False
    have "(x # l) ! (nat i - n) = l ! (nat i - Suc n)" if "int (Suc n) \<le> i"
    proof -
      from that have "nat i - n = Suc (nat i - Suc n)" by linarith
      then show ?thesis by simp
    qed
    with False show ?thesis
      using Cons[of "Suc n"] by auto
  qed
qed

lemma map_of_list_items:
  "map_of (list_items l) k =
     (case k of KInt i \<Rightarrow> if 0 \<le> i \<and> nat i < length l then Some (l ! nat i) else None
      | _ \<Rightarrow> None)"
proof (cases k)
  case (KInt i)
  have "(i < int (length l)) = (nat i < length l)" if "0 \<le> i"
    using that by linarith
  then show ?thesis
    using map_of_items_from[of 0 l i] by (auto simp: KInt list_items_def)
next
  case (KStr s)
  then show ?thesis
    by (auto simp: list_items_def map_of_eq_None_iff)
next
  case (KTuple t)
  then show ?thesis
    by (auto simp: list_items_def map_of_eq_None_iff)
qed

lemma agree_dict:
  assumes "distinct (map fst m1)" and "distinct (map fst m2)"
    and rel: "\<And>k. rel_option (\<lambda>v1 v2. map_of (rel_leaves v1) = map_of (rel_leaves v2))
                 (map_of m1 k) (map_of m2 k)"
  shows "map_of (rel_leaves (PDict m1)) = map_of (rel_leaves (PDict m2))"
proof -
  have empty: "m1 = [] \<longleftrightarrow> m2 = []"
  proof
    assume "m1 = []"
    then have "map_of m2 k = None" for k
      using rel[of k] by (cases "map_of m2 k") auto
    then have "map_of m2 = Map.empty" by (rule ext)
    then show "m2 = []" by simp
  next
    assume "m2 = []"
    then have "map_of m1 k = None" for k
      using rel[of k] by (cases "map_of m1 k") auto
    then have "map_of m1 = Map.empty" by (rule ext)
    then show "m1 = []" by simp
  qed
  show ?thesis
  proof (cases "m1 = []")
    case True
    with empty show ?thesis by simp
  next
    case False
    with empty have ne: "m1 \<noteq> []" "m2 \<noteq> []" by simp_all
    have "map_of (rel_leaves (PDict m1)) q = map_of (rel_leaves (PDict m2)) q" for q
    proof (cases q)
      case Nil
      then show ?thesis
        using ne assms(1,2) by (simp add: map_of_leaves_dict)
    next
      case (Cons k q')
      show ?thesis
        using rel[of k] ne assms(1,2)
        by (cases "map_of m1 k"; cases "map_of m2 k") (simp_all add: Cons map_of_leaves_dict)
    qed
    then show ?thesis by (rule ext)
  qed
qed


lemma py_eq_leaves:
  "wf_val a \<Longrightarrow> wf_val b \<Longrightarrow> py_eq a b \<Longrightarrow> map_of (rel_leaves a) = map_of (rel_leaves b)"
proof (induction a arbitrary: b rule: rel_leaves.induct)
  case (1 m1)
  from "1.prems"(3) obtain m2 where b: "b = PDict m2"
    by (cases b) auto
  from "1.prems" have len: "length m1 = length m2"
    and d1: "distinct (map fst m1)" and d2: "distinct (map fst m2)"
    by (simp_all add: b)
  from "1.prems"(3) have found: "\<forall>kv \<in> set m1.
      case map_of m2 (fst kv) of None \<Rightarrow> False | Some v2 \<Rightarrow> py_eq (snd kv) v2"
    by (simp add: b)
  have each: "\<exists>v2. map_of m2 k = Some v2 \<and> py_eq v1 v2" if "(k, v1) \<in> set m1" for k v1
    using bspec[OF found that] by (simp split: option.splits)
  have "fst ` set m1 \<subseteq> fst ` set m2"
    using each by (force dest: map_of_SomeD)
  moreover have "card (fst ` set m1) = card (fst ` set m2)"
    using d1 d2 len distinct_card[of "map fst m1"] distinct_card[of "map fst m2"] by simp
  ultimately have keys: "fst ` set m1 = fst ` set m2"
    by (intro card_subset_eq) auto
  have "rel_option (\<lambda>v1 v2. map_of (rel_leaves v1) = map_of (rel_leaves v2))
          (map_of m1 k) (map_of m2 k)" for k
  proof (cases "map_of m1 k")
    case None
    then have "k \<notin> fst ` set m2"
      using keys by (simp add: map_of_eq_None_iff)
    then have "map_of m2 k = None"
      by (simp add: map_of_eq_None_iff)
    with None show ?thesis by simp
  next
    case (Some v1)
    then have mem: "(k, v1) \<in> set m1" by (rule map_of_SomeD)
    then obtain v2 where v2: "map_of m2 k = Some v2" "py_eq v1 v2"
      using each by blast
    then have "(k, v2) \<in> set m2" by (auto dest: map_of_SomeD)
    with "1.prems"(2) have "wf_val v2" by (auto simp: b)
    moreover from mem "1.prems"(1) have "wf_val v1" by auto
    moreover from mem have "m1 \<noteq> []" by auto
    ultimately have "map_of (rel_leaves v1) = map_of (rel_leaves v2)"
      using "1.IH"[of "(k, v1)" v2] mem v2(2) by simp
    with Some v2 show ?thesis by simp
  qed
  with d1 d2 show ?case
    unfolding b by (intro agree_dict)
next
  case (2 l1)
  from "2.prems"(3) obtain l2 where b: "b = PList l2"
    by (cases b) auto
  from "2.prems" have len: "length l1 = length l2"
    and each: "\<And>i. i < length l1 \<Longrightarrow> py_eq (l1 ! i) (l2 ! i)"
    by (auto simp: b)
  have "rel_option (\<lambda>v1 v2. map_of (rel_leaves v1) = map_of (rel_leaves v2))
          (map_of (list_items l1) k) (map_of (list_items l2) k)" for k
  proof (cases k)
    case (KInt i)
    show ?thesis
    proof (cases "0 \<le> i \<and> nat i < length l1")
      case True
      then have mem: "(nat i, l1 ! nat i) \<in> set (enumerate 0 l1)"
        by (simp add: in_set_enumerate_eq)
      from True have "l1 \<noteq> []" by auto
      moreover from True "2.prems"(1) have "wf_val (l1 ! nat i)" by simp
      moreover from True len "2.prems"(2) have "wf_val (l2 ! nat i)" by (simp add: b)
      ultimately have "map_of (rel_leaves (l1 ! nat i)) = map_of (rel_leaves (l2 ! nat i))"
        using "2.IH"[of "(nat i, l1 ! nat i)" "l2 ! nat i"] mem each[of "nat i"] True by simp
      with True len show ?thesis
        by (simp add: KInt map_of_list_items)
    next
      case False
      with len show ?thesis
        by (auto simp: KInt map_of_list_items)
    qed
  qed (simp_all add: map_of_list_items)
  then have "map_of (rel_leaves (PDict (list_items l1))) = map_of (rel_leaves (PDict (list_items l2)))"
    by (intro agree_dict distinct_list_items)
  then show ?case
    by (simp only: b leaves_list_as_dict)
qed auto

lemma flatten_top_leaves:
  "wf_val (PDict d) \<Longrightarrow> flatten d None = (if d = [] then [] else rel_leaves (PDict d))"
  by (simp add: flatten_rel_leaves)

lemma py_eq_flatten:
  assumes "wf_val (PDict d1)" and "wf_val (PDict d2)" and "py_eq (PDict d1) (PDict d2)"
  shows "map_of (flatten d1 None) = map_of (flatten d2 None)"
proof -
  from assms(3) have "d1 = [] \<longleftrightarrow> d2 = []" by auto
  moreover have "map_of (rel_leaves (PDict d1)) = map_of (rel_leaves (PDict d2))"
    using assms by (rule py_eq_leaves)
  ultimately show ?thesis
    using assms(1,2) by (simp only: flatten_top_leaves split: if_splits) auto
qed




























lemma bitlen_bounds: "0 < n \<Longrightarrow> 2 ^ (bitlen n - 1) \<le> n \<and> n < 2 ^ bitlen n"
proof (induction n rule: bitlen.induct)
  case (1 n)
  show ?case
  proof (cases "n = 1")
    case True
    then show ?thesis by (simp add: bitlen.simps)
  next
    case False
    with "1.prems" have half: "0 < n div 2" by simp
    with "1.IH" "1.prems" have IH: "2 ^ (bitlen (n div 2) - 1) \<le> n div 2"
        "n div 2 < 2 ^ bitlen (n div 2)"
      by simp_all
    from half have pos: "0 < bitlen (n div 2)"
      by (subst bitlen.simps) simp
    have eq: "bitlen n = Suc (bitlen (n div 2))"
      using "1.prems" by (subst bitlen.simps) simp
    from pos have "(2::int) ^ (bitlen n - 1) = 2 * 2 ^ (bitlen (n div 2) - 1)"
      by (cases "bitlen (n div 2)") (simp_all add: eq)
    with IH(1) have "2 ^ (bitlen n - 1) \<le> n" by linarith
    moreover from IH(2) have "n < 2 ^ bitlen n"
      by (simp add: eq)
    ultimately show ?thesis by simp
  qed
qed

lemma pow2_int: "pow2 (int k) = 2 ^ k"
  by (simp add: pow2_def)

lemma pow2_neg: "pow2 (- int k) = 1 / 2 ^ k"
  by (simp add: pow2_def)

lemma ilog2_bounds:
  assumes "0 < x"
  shows "pow2 (ilog2 x) \<le> x \<and> x < pow2 (ilog2 x + 1)"
proof (cases "1 \<le> x")
  case True
  let ?n = "\<lfloor>x\<rfloor>"
  from True have n: "0 < ?n" by simp
  then have pos: "0 < bitlen ?n"
    by (subst bitlen.simps) simp
  from bitlen_bounds[OF n] have lo: "2 ^ (bitlen ?n - 1) \<le> ?n" and hi: "?n < 2 ^ bitlen ?n"
    by simp_all
  from lo have "of_int (2 ^ (bitlen ?n - 1)) \<le> x"
    by (simp only: le_floor_iff)
  then have a: "2 ^ (bitlen ?n - 1) \<le> x" by simp
  from hi have "x < of_int (2 ^ bitlen ?n)"
    by (simp only: floor_less_iff)
  then have b: "x < 2 ^ bitlen ?n" by simp
  from pos have "ilog2 x = int (bitlen ?n - 1)" "ilog2 x + 1 = int (bitlen ?n)"
    using True by (simp_all add: ilog2_def)
  with a b show ?thesis
    by (simp only: pow2_int)
next
  case False
  let ?n = "\<lceil>1 / x\<rceil> - 1"
  from False assms have y: "1 < 1 / x" by simp
  then have n: "0 < ?n" by linarith
  from bitlen_bounds[OF n] have lo: "2 ^ (bitlen ?n - 1) \<le> ?n" and hi: "?n < 2 ^ bitlen ?n"
    by simp_all
  have "of_int ?n < 1 / x" by linarith
  moreover from lo have "(of_int (2 ^ (bitlen ?n - 1)) :: real) \<le> of_int ?n"
    by (simp only: of_int_le_iff)
  ultimately have "(2::real) ^ (bitlen ?n - 1) < 1 / x" by simp
  then have "2 ^ (bitlen ?n - 1) * x < 1"
    using assms by (simp only: pos_less_divide_eq)
  then have "x * 2 ^ (bitlen ?n - 1) < 1"
    by (simp only: mult.commute)
  then have b: "x < 1 / 2 ^ (bitlen ?n - 1)"
    by (simp only: pos_less_divide_eq zero_less_power zero_less_numeral)
  from hi have "\<lceil>1 / x\<rceil> \<le> 2 ^ bitlen ?n" by simp
  then have "1 / x \<le> of_int (2 ^ bitlen ?n)"
    by (simp only: ceiling_le_iff)
  then have "1 / x \<le> 2 ^ bitlen ?n" by simp
  then have "1 \<le> 2 ^ bitlen ?n * x"
    using assms by (simp only: pos_divide_le_eq)
  then have "1 \<le> x * 2 ^ bitlen ?n"
    by (simp only: mult.commute)
  then have a: "1 / 2 ^ bitlen ?n \<le> x"
    by (simp only: pos_divide_le_eq zero_less_power zero_less_numeral)
  from n have pos: "0 < bitlen ?n"
    by (subst bitlen.simps) simp
  have il: "ilog2 x = - int (bitlen ?n)"
    using False by (simp add: ilog2_def)
  from pos have "ilog2 x + 1 = - int (bitlen ?n - 1)"
    by (simp add: il)
  with a b il show ?thesis
    by (simp only: pow2_neg)
qed





lemma extend_Nil [simp]: "extend s [] = s"
  by (simp add: extend_def)

lemma extend_append: "extend (extend s xs) ys = extend s (xs @ ys)"
  by (simp add: extend_def)

lemma extend_distance: "extend (s\<lparr>deep_distance := v\<rparr>) lvs = (extend s lvs)\<lparr>deep_distance := v\<rparr>"
  by (simp add: extend_def)

lemma classify_level_cases:
  "classify_level s lv = (if both_absent lv then Inl ValueError else Inr (extend s [lv]))"
  by (auto simp: classify_level_def both_absent_def is_NotPresent_def extend_def Let_def
      is_added_def is_removed_def is_altered_def leafs_t1_def leafs_t2_def)

lemma classify_levels_ok:
  "\<forall>lv \<in> set lvs. \<not> both_absent lv \<Longrightarrow> classify_levels s lvs = Inr (extend s lvs)"
proof (induction lvs arbitrary: s)
  case Nil
  show ?case by simp
next
  case (Cons lv lvs)
  then have "classify_levels (extend s [lv]) lvs = Inr (extend (extend s [lv]) lvs)"
    by simp
  with Cons.prems show ?case
    by (simp add: classify_level_cases extend_append)
qed

lemma classify_levels_invalid:
  "\<exists>lv \<in> set lvs. both_absent lv \<Longrightarrow> classify_levels s lvs = Inl ValueError"
proof (induction lvs arbitrary: s)
  case Nil
  then show ?case by simp
next
  case (Cons lv lvs)
  show ?case
  proof (cases "both_absent lv")
    case True
    then show ?thesis by (simp add: classify_level_cases)
  next
    case False
    with Cons.prems have "\<exists>lv \<in> set lvs. both_absent lv" by simp
    then have "classify_levels (extend s [lv]) lvs = Inl ValueError"
      by (rule Cons.IH)
    with False show ?thesis by (simp add: classify_level_cases)
  qed
qed

lemma parse_items_ok:
  "well_formed_report RK dd \<Longrightarrow> \<forall>lv \<in> set (levels_of dd). \<not> both_absent lv \<Longrightarrow>
   parse_items RK s dd =
     Inr ((extend s (levels_of dd))\<lparr>deep_distance := last_distance (deep_distance s) dd\<rparr>)"
proof (induction dd arbitrary: s)
  case Nil
  show ?case by simp
next
  case (Cons kv dd)
  obtain k v where kv: "kv = (k, v)" by (cases kv)
  from Cons.prems(1) have wf: "well_formed_report RK dd"
    by (simp add: well_formed_report_def)
  show ?case
  proof (cases "k = ''deep_distance''")
    case True
    with Cons.prems(2) have ok: "\<forall>lv \<in> set (levels_of dd). \<not> both_absent lv"
      by (simp add: kv)
    show ?thesis
      using Cons.IH[OF wf ok, of "s\<lparr>deep_distance := v\<rparr>"] True
      by (simp add: kv extend_distance)
  next
    case False
    with Cons.prems(1) obtain lvs where v: "v = Levels lvs" and k: "k \<in> RK"
      by (cases v) (auto simp: well_formed_report_def kv)
    from Cons.prems(2) False have ok1: "\<forall>lv \<in> set lvs. \<not> both_absent lv"
      and ok: "\<forall>lv \<in> set (levels_of dd). \<not> both_absent lv"
      by (auto simp: kv v)
    show ?thesis
      using Cons.IH[OF wf ok, of "extend s lvs"] False k
      by (simp add: kv v classify_levels_ok[OF ok1] extend_append extend_def)
  qed
qed

lemma parse_items_invalid:
  "\<exists>lv \<in> set (levels_of dd). both_absent lv \<Longrightarrow>
   (\<exists>e. parse_items RK s dd = Inl e) \<and>
   (well_formed_report RK dd \<longrightarrow> parse_items RK s dd = Inl ValueError)"
proof (induction dd arbitrary: s)
  case Nil
  then show ?case by simp
next
  case (Cons kv dd)
  obtain k v where kv: "kv = (k, v)" by (cases kv)
  show ?case
  proof (cases "k = ''deep_distance''")
    case True
    with Cons.prems have "\<exists>lv \<in> set (levels_of dd). both_absent lv"
      by (simp add: kv)
    from Cons.IH[OF this, of "s\<lparr>deep_distance := v\<rparr>"] True show ?thesis
      by (simp add: kv well_formed_report_def)
  next
    case notdist: False
    show ?thesis
    proof (cases v)
      case (Number x)
      with notdist show ?thesis
        by (simp add: kv well_formed_report_def)
    next
      case (Levels lvs)
      show ?thesis
      proof (cases "\<exists>lv \<in> set lvs. both_absent lv")
        case True
        then have "classify_levels s lvs = Inl ValueError"
          by (rule classify_levels_invalid)
        with notdist show ?thesis
          by (simp add: kv Levels well_formed_report_def)
      next
        case False
        then have ok: "classify_levels s lvs = Inr (extend s lvs)"
          by (intro classify_levels_ok) simp
        from False Cons.prems notdist have "\<exists>lv \<in> set (levels_of dd). both_absent lv"
          by (auto simp: kv Levels)
        from Cons.IH[OF this, of "extend s lvs"] notdist ok show ?thesis
          by (auto simp: kv Levels well_formed_report_def)
      qed
    qed
  qed
qed


lemma length_filter_classes:
  "\<forall>lv \<in> set lvs. \<not> both_absent lv \<Longrightarrow>
   length (filter is_added lvs) + length (filter is_removed lvs) + length (filter is_altered lvs)
     = length lvs"
  by (induction lvs) (auto simp: both_absent_def is_added_def is_removed_def is_altered_def)

lemma well_formed_filter:
  "well_formed_report RK dd \<Longrightarrow> well_formed_report RK (filter (\<lambda>kv. fst kv \<noteq> ''deep_distance'') dd)"
  by (induction dd) (auto simp: well_formed_report_def)

lemma levels_of_filter:
  "levels_of (filter (\<lambda>kv. fst kv \<noteq> ''deep_distance'') dd) = levels_of dd"
  by (induction dd rule: levels_of.induct) (auto split: report_value.splits)

lemma last_distance_filter:
  "last_distance d0 (filter (\<lambda>kv. fst kv \<noteq> ''deep_distance'') dd) = d0"
  by (induction dd arbitrary: d0) auto

lemma flatten_twice_wraps:
  "flatten (as_dict (flatten d None)) None = map (\<lambda>(p, v). ([KTuple p], v)) (flatten d None)"
proof -
  have "map fst (as_dict (flatten d None)) = map KTuple (map fst (flatten d None))"
    by (simp add: as_dict_def case_prod_unfold)
  then have "distinct (map fst (as_dict (flatten d None)))"
    using distinct_flatten[of d None] by (simp only: distinct_map) (simp add: inj_on_def)
  moreover have "\<not> is_container v" if "(k, v) \<in> set (as_dict (flatten d None))" for k v
    using that flatten_scalar_values[of _ v d None] by (auto simp: as_dict_def)
  ultimately have "flatten (as_dict (flatten d None)) None =
      map (\<lambda>(k, v). ([k], v)) (as_dict (flatten d None))"
    by (rule flatten_flat)
  then show ?thesis
    by (simp add: as_dict_def case_prod_unfold)
qed

section \<open>The leaf-path resolver\<close>

text \<open>
  Claim C9. For every path prefix, \<open>flat_deepdiff_entry\<close> applied to the not-present
  sentinel returns exactly \<open>{path_prefix: None}\<close>, and applied to a scalar value \<open>v\<close>
  (not a mapping, not a sequence, not the sentinel) it returns exactly
  \<open>{path_prefix: v}\<close>.
\<close>

theorem flat_deepdiff_entry_leaf:
  "flat_deepdiff_entry PNotPresent path_prefix = [(path_prefix, PNone)] \<and>
   (is_scalar v \<longrightarrow> flat_deepdiff_entry v path_prefix = [(path_prefix, v)])"
  by (cases v) (simp_all add: flat_deepdiff_entry_def)

theorem flat_deepdiff_entry_leaf_witness:
  "is_scalar (PInt 7) \<and>
   flat_deepdiff_entry (PInt 7) [KStr ''a'', KInt 2] = [([KStr ''a'', KInt 2], PInt 7)]"
  using flat_deepdiff_entry_leaf [of "[KStr ''a'', KInt 2]" "PInt 7"] by simp

text \<open>
  Claim C10. For every path prefix, \<open>flat_deepdiff_entry\<close> applied to an empty mapping
  returns the empty mapping, whereas applied to an empty sequence it returns
  \<open>{path_prefix: None}\<close>. So the loop body of \<open>parse_deepdiff\<close>, on a level whose added
  (removed) value is an empty mapping, appends the path to the added (removed) paths and
  nothing to the leaf added (removed) paths; for an empty sequence it appends the
  path to both.
\<close>

theorem empty_mapping_no_leaf:
  "flat_deepdiff_entry (PDict []) path_prefix = [] \<and>
   flat_deepdiff_entry (PList []) path_prefix = [(path_prefix, PNone)] \<and>
   (t1 lv = PNotPresent \<and> t2 lv = PDict [] \<longrightarrow>
      classify_level s lv = Inr (s\<lparr>paths_added := paths_added s @ [path_t2 lv]\<rparr>)) \<and>
   (t1 lv = PNotPresent \<and> t2 lv = PList [] \<longrightarrow>
      classify_level s lv = Inr (s\<lparr>paths_added := paths_added s @ [path_t2 lv],
                                   leaf_paths_added := leaf_paths_added s @ [path_t2 lv]\<rparr>)) \<and>
   (t1 lv = PDict [] \<and> t2 lv = PNotPresent \<longrightarrow>
      classify_level s lv = Inr (s\<lparr>paths_removed := paths_removed s @ [path_t1 lv]\<rparr>)) \<and>
   (t1 lv = PList [] \<and> t2 lv = PNotPresent \<longrightarrow>
      classify_level s lv = Inr (s\<lparr>paths_removed := paths_removed s @ [path_t1 lv],
                                   leaf_paths_removed := leaf_paths_removed s @ [path_t1 lv]\<rparr>))"
  by (simp add: flat_deepdiff_entry_def classify_level_def is_NotPresent_def flatten_dummy_empty Let_def)

theorem empty_mapping_no_leaf_witness:
  "classify_level init_parsed
     \<lparr>t1 = PNotPresent, t2 = PDict [], path_t1 = [KStr ''a''], path_t2 = [KStr ''b'']\<rparr>
     = Inr (init_parsed\<lparr>paths_added := [[KStr ''b'']]\<rparr>) \<and>
   classify_level init_parsed
     \<lparr>t1 = PNotPresent, t2 = PList [], path_t1 = [KStr ''a''], path_t2 = [KStr ''b'']\<rparr>
     = Inr (init_parsed\<lparr>paths_added := [[KStr ''b'']], leaf_paths_added := [[KStr ''b'']]\<rparr>) \<and>
   classify_level init_parsed
     \<lparr>t1 = PDict [], t2 = PNotPresent, path_t1 = [KStr ''a''], path_t2 = [KStr ''b'']\<rparr>
     = Inr (init_parsed\<lparr>paths_removed := [[KStr ''a'']]\<rparr>) \<and>
   classify_level init_parsed
     \<lparr>t1 = PList [], t2 = PNotPresent, path_t1 = [KStr ''a''], path_t2 = [KStr ''b'']\<rparr>
     = Inr (init_parsed\<lparr>paths_removed := [[KStr ''a'']], leaf_paths_removed := [[KStr ''a'']]\<rparr>)"
  using
    empty_mapping_no_leaf [of "[]"
      "\<lparr>t1 = PNotPresent, t2 = PDict [], path_t1 = [KStr ''a''], path_t2 = [KStr ''b'']\<rparr>"
      init_parsed]
    empty_mapping_no_leaf [of "[]"
      "\<lparr>t1 = PNotPresent, t2 = PList [], path_t1 = [KStr ''a''], path_t2 = [KStr ''b'']\<rparr>"
      init_parsed]
    empty_mapping_no_leaf [of "[]"
      "\<lparr>t1 = PDict [], t2 = PNotPresent, path_t1 = [KStr ''a''], path_t2 = [KStr ''b'']\<rparr>"
      init_parsed]
    empty_mapping_no_leaf [of "[]"
      "\<lparr>t1 = PList [], t2 = PNotPresent, path_t1 = [KStr ''a''], path_t2 = [KStr ''b'']\<rparr>"
      init_parsed]
  by (simp add: init_parsed_def)

section \<open>The best-match solver\<close>

text \<open>
  Claim C5. For every call of \<open>find_best_match\<close> with \<open>len(indices2) < len(indices1)\<close>,
  the function fails (the assertion on the solution raises) and returns no assignment,
  whatever the numbers and their arithmetic.
\<close>

theorem find_best_match_short_pool:
  "length indices2 < length indices1 \<Longrightarrow>
   find_best_match ops indices1 indices2 distance_matrix = Inl AssertionError"
  by (simp add: find_best_match_def perms_too_long)

theorem find_best_match_short_pool_witness:
  "length [Some (0::int)] < length [0::int, 1] \<and>
   find_best_match int_ops [0, 1] [Some 0] Map.empty = Inl AssertionError"
  using find_best_match_short_pool [of "[Some 0]" "[0, 1]" int_ops Map.empty] by simp

text \<open>
  Claim C2, as stated: for \<open>indices1 = [0]\<close>, \<open>indices2 = [placeholder, 1]\<close> and
  \<open>distance_matrix[0][1] = 3\<close> the result is \<open>{0: 1}\<close>. The code returns something
  else.
\<close>

theorem placeholder_example_counterexample:
  "find_best_match int_ops [0] [None, Some 1] [0 \<mapsto> [1 \<mapsto> 3]] \<noteq> Inr [(0, Some 1)]"
  by (simp add: find_best_match_def permutations_def upt_rec int_ops_def below_def dict_of_def)

text \<open>
  Claim C2, amended. For \<open>indices1 = [0]\<close>, \<open>indices2 = [placeholder, 1]\<close> and
  \<open>distance_matrix[0][1] = 3\<close>, \<open>find_best_match\<close> returns \<open>{0: None}\<close>: the pairing
  with the zero-cost placeholder is preferred over the real match at cost 3.
\<close>

theorem placeholder_preferred:
  "distance_matrix 0 = Some row \<Longrightarrow> row 1 = Some 3 \<Longrightarrow>
   find_best_match int_ops [0] [None, Some 1] distance_matrix = Inr [(0, None)]"
  by (simp add: find_best_match_def permutations_def upt_rec int_ops_def below_def dict_of_def)

theorem placeholder_preferred_witness:
  "find_best_match int_ops [0] [None, Some 1] [0 \<mapsto> [1 \<mapsto> 3]] = Inr [(0, None)]"
  using placeholder_preferred [of "[0 \<mapsto> [1 \<mapsto> 3]]" "[1 \<mapsto> 3]"] by simp




section \<open>The flattener\<close>

text \<open>
  Claim C6. For every nested structure, \<open>flatten\<close> maps each empty mapping and each empty
  sequence below the top level to a single entry whose key is the path to that container
  and whose value is \<open>None\<close>; in particular \<open>flatten({"x": {}})\<close> is
  \<open>{("x",): None}\<close>.
\<close>

theorem flatten_empty_container:
  "(wf_val (PDict d) \<and> p \<noteq> [] \<and> value_at (PDict d) p = Some e \<and> (e = PDict [] \<or> e = PList [])
     \<longrightarrow> filter (\<lambda>entry. fst entry = p) (flatten d None) = [(p, PNone)]) \<and>
   flatten [(KStr ''x'', PDict [])] None = [([KStr ''x''], PNone)]"
proof (intro conjI impI)
  assume a: "wf_val (PDict d) \<and> p \<noteq> [] \<and> value_at (PDict d) p = Some e \<and> (e = PDict [] \<or> e = PList [])"
  then obtain k q where p: "p = k # q" by (cases p) auto
  with a obtain w where w: "map_of d k = Some w" "value_at w q = Some e"
    by (auto split: option.splits)
  then have mem: "(k, w) \<in> set d" by (auto dest: map_of_SomeD)
  with a have "wf_val w" by auto
  then have "(q, PNone) \<in> set (rel_leaves w)"
    using value_at_leaf w(2) a by blast
  with mem a have "(p, PNone) \<in> set (flatten d None)"
    by (force simp: flatten_rel_leaves p)
  then show "filter (\<lambda>entry. fst entry = p) (flatten d None) = [(p, PNone)]"
    by (rule filter_key_distinct[OF distinct_flatten])
next
  show "flatten [(KStr ''x'', PDict [])] None = [([KStr ''x''], PNone)]"
    by (simp add: flatten.simps)
qed

theorem flatten_empty_container_witness:
  "value_at (PDict [(KStr ''c'', PList [PInt 1, PDict []])]) [KStr ''c'', KInt 1] = Some (PDict []) \<and>
   filter (\<lambda>entry. fst entry = [KStr ''c'', KInt 1])
     (flatten [(KStr ''c'', PList [PInt 1, PDict []])] None) = [([KStr ''c'', KInt 1], PNone)]"
  using flatten_empty_container [of "[(KStr ''c'', PList [PInt 1, PDict []])]"
      "[KStr ''c'', KInt 1]" "PDict []"]
  by simp

text \<open>
  Claim C7, as stated: the number of entries of \<open>flatten\<close>'s result is the number of
  scalar values reachable in the structure plus one for each empty container
  encountered. It fails for the empty top-level mapping, which is an empty container
  and yields no entry.
\<close>

theorem leaf_count_top_level_counterexample:
  "length (flatten [] None) \<noteq> count_scalars (PDict []) + count_empty (PDict [])"
  by simp

text \<open>
  Claim C7, amended. For every nested structure, the number of entries of \<open>flatten\<close>'s
  result is the number of scalar values reachable in the structure plus one for each
  empty container strictly below the top level; for a non-empty top-level mapping this
  is the count of the claim as stated.
\<close>

theorem leaf_count_conservation:
  "wf_val (PDict d) \<Longrightarrow>
   length (flatten d None) = count_scalars (PDict d) + count_empty_below d \<and>
   (d \<noteq> [] \<longrightarrow> length (flatten d None) = count_scalars (PDict d) + count_empty (PDict d))"
  by (simp add: flatten_rel_leaves length_concat_map length_rel_leaves sum_list_addf
      count_empty_below_def)

theorem leaf_count_conservation_witness:
  "wf_val (PDict [(KStr ''a'', PDict []), (KStr ''b'', PList [PInt 1, PInt 2])]) \<and>
   length (flatten [(KStr ''a'', PDict []), (KStr ''b'', PList [PInt 1, PInt 2])] None) = 3"
  using leaf_count_conservation [of "[(KStr ''a'', PDict []), (KStr ''b'', PList [PInt 1, PInt 2])]"]
  by (simp add: count_empty_below_def)

text \<open>
  Claim C8, as stated: applying \<open>flatten\<close> twice gives the same result as applying it
  once. It fails on \<open>{"a": 1}\<close>: the second application wraps the path tuple.
\<close>

theorem flatten_twice_counterexample:
  "flatten (as_dict (flatten [(KStr ''a'', PInt 1)] None)) None \<noteq> flatten [(KStr ''a'', PInt 1)] None"
  by (simp add: flatten.simps as_dict_def)

text \<open>
  Claim C8, amended. Applying \<open>flatten\<close> to its own result keeps every value and the
  order of the entries and wraps each path \<open>p\<close> into the one-element path \<open>(p,)\<close>; and
  inputs that are equal as Python values, whatever the insertion order of their
  mappings, yield flattened mappings with the same keys and values.
\<close>

theorem flatten_twice:
  "flatten (as_dict (flatten d None)) None = map (\<lambda>(p, v). ([KTuple p], v)) (flatten d None) \<and>
   (wf_val (PDict d) \<and> wf_val (PDict d') \<and> py_eq (PDict d) (PDict d') \<longrightarrow>
      map_of (flatten d None) = map_of (flatten d' None))"
  using flatten_twice_wraps[of d] py_eq_flatten[of d d'] by blast

theorem flatten_twice_witness:
  "py_eq (PDict [(KStr ''a'', PInt 1), (KStr ''b'', PList [PDict []])])
         (PDict [(KStr ''b'', PList [PDict []]), (KStr ''a'', PInt 1)]) \<and>
   map_of (flatten [(KStr ''a'', PInt 1), (KStr ''b'', PList [PDict []])] None) =
   map_of (flatten [(KStr ''b'', PList [PDict []]), (KStr ''a'', PInt 1)] None)"
  using flatten_twice [of "[(KStr ''a'', PInt 1), (KStr ''b'', PList [PDict []])]"
      "[(KStr ''b'', PList [PDict []]), (KStr ''a'', PInt 1)]"]
  by simp

section \<open>The diff classifier\<close>

text \<open>
  Claim C3. For every diff report with known keys and no level absent on both sides,
  \<open>parse_deepdiff\<close> returns, and each level goes to exactly one of the three classes:
  absent in A and present in B, its B-path goes to the added paths and its B-side
  leaves to the leaf added paths; present in A and absent in B, its A-path and A-side
  leaves go to the removed ones; present on both sides, its paths and leaves go to the
  altered ones of each side. No level is dropped, and the entry under
  \<^verbatim>\<open>'deep_distance'\<close> only sets the deep distance: without it the path lists are the
  same.
\<close>

theorem parse_deepdiff_classifies:
  "well_formed_report REPORT_KEYS dd \<and> (\<forall>lv \<in> set (levels_of dd). \<not> both_absent lv) \<longrightarrow>
   (\<exists>r. parse_deepdiff REPORT_KEYS dd = Inr r \<and>
      deep_distance r = last_distance (Number 0) dd \<and>
      paths_added r = map path_t2 (filter is_added (levels_of dd)) \<and>
      leaf_paths_added r = concat (map leafs_t2 (filter is_added (levels_of dd))) \<and>
      paths_removed r = map path_t1 (filter is_removed (levels_of dd)) \<and>
      leaf_paths_removed r = concat (map leafs_t1 (filter is_removed (levels_of dd))) \<and>
      paths_altered_1 r = map path_t1 (filter is_altered (levels_of dd)) \<and>
      paths_altered_2 r = map path_t2 (filter is_altered (levels_of dd)) \<and>
      leaf_paths_altered_1 r = concat (map leafs_t1 (filter is_altered (levels_of dd))) \<and>
      leaf_paths_altered_2 r = concat (map leafs_t2 (filter is_altered (levels_of dd))) \<and>
      length (paths_added r) + length (paths_removed r) + length (paths_altered_1 r)
        = length (levels_of dd) \<and>
      parse_deepdiff REPORT_KEYS (filter (\<lambda>kv. fst kv \<noteq> ''deep_distance'') dd)
        = Inr (r\<lparr>deep_distance := Number 0\<rparr>)) \<and>
   (\<forall>lv \<in> set (levels_of dd).
      (is_added lv \<and> \<not> is_removed lv \<and> \<not> is_altered lv) \<or>
      (\<not> is_added lv \<and> is_removed lv \<and> \<not> is_altered lv) \<or>
      (\<not> is_added lv \<and> \<not> is_removed lv \<and> is_altered lv))"
proof (intro impI)
  assume a: "well_formed_report REPORT_KEYS dd \<and> (\<forall>lv \<in> set (levels_of dd). \<not> both_absent lv)"
  let ?r = "(extend init_parsed (levels_of dd))\<lparr>deep_distance := last_distance (Number 0) dd\<rparr>"
  let ?dd' = "filter (\<lambda>kv. fst kv \<noteq> ''deep_distance'') dd"
  have run: "parse_deepdiff REPORT_KEYS dd = Inr ?r"
    using a parse_items_ok[of REPORT_KEYS dd init_parsed]
    by (simp add: parse_deepdiff_def init_parsed_def)
  have "parse_deepdiff REPORT_KEYS ?dd' =
      Inr ((extend init_parsed (levels_of ?dd'))\<lparr>deep_distance := last_distance (Number 0) ?dd'\<rparr>)"
    using a parse_items_ok[of REPORT_KEYS ?dd' init_parsed] well_formed_filter[of REPORT_KEYS dd]
    by (simp add: parse_deepdiff_def init_parsed_def levels_of_filter)
  then have run': "parse_deepdiff REPORT_KEYS ?dd' = Inr (?r\<lparr>deep_distance := Number 0\<rparr>)"
    by (simp add: levels_of_filter last_distance_filter)
  have count: "length (paths_added ?r) + length (paths_removed ?r) + length (paths_altered_1 ?r)
        = length (levels_of dd)"
    using a length_filter_classes[of "levels_of dd"]
    by (simp add: extend_def init_parsed_def)
  have fields: "deep_distance ?r = last_distance (Number 0) dd"
    "paths_added ?r = map path_t2 (filter is_added (levels_of dd))"
    "leaf_paths_added ?r = concat (map leafs_t2 (filter is_added (levels_of dd)))"
    "paths_removed ?r = map path_t1 (filter is_removed (levels_of dd))"
    "leaf_paths_removed ?r = concat (map leafs_t1 (filter is_removed (levels_of dd)))"
    "paths_altered_1 ?r = map path_t1 (filter is_altered (levels_of dd))"
    "paths_altered_2 ?r = map path_t2 (filter is_altered (levels_of dd))"
    "leaf_paths_altered_1 ?r = concat (map leafs_t1 (filter is_altered (levels_of dd)))"
    "leaf_paths_altered_2 ?r = concat (map leafs_t2 (filter is_altered (levels_of dd)))"
    by (simp_all add: extend_def init_parsed_def)
  have once: "\<forall>lv \<in> set (levels_of dd).
      (is_added lv \<and> \<not> is_removed lv \<and> \<not> is_altered lv) \<or>
      (\<not> is_added lv \<and> is_removed lv \<and> \<not> is_altered lv) \<or>
      (\<not> is_added lv \<and> \<not> is_removed lv \<and> is_altered lv)"
    using a by (auto simp: both_absent_def is_added_def is_removed_def is_altered_def)
  show "(\<exists>r. parse_deepdiff REPORT_KEYS dd = Inr r \<and>
      deep_distance r = last_distance (Number 0) dd \<and>
      paths_added r = map path_t2 (filter is_added (levels_of dd)) \<and>
      leaf_paths_added r = concat (map leafs_t2 (filter is_added (levels_of dd))) \<and>
      paths_removed r = map path_t1 (filter is_removed (levels_of dd)) \<and>
      leaf_paths_removed r = concat (map leafs_t1 (filter is_removed (levels_of dd))) \<and>
      paths_altered_1 r = map path_t1 (filter is_altered (levels_of dd)) \<and>
      paths_altered_2 r = map path_t2 (filter is_altered (levels_of dd)) \<and>
      leaf_paths_altered_1 r = concat (map leafs_t1 (filter is_altered (levels_of dd))) \<and>
      leaf_paths_altered_2 r = concat (map leafs_t2 (filter is_altered (levels_of dd))) \<and>
      length (paths_added r) + length (paths_removed r) + length (paths_altered_1 r)
        = length (levels_of dd) \<and>
      parse_deepdiff REPORT_KEYS ?dd' = Inr (r\<lparr>deep_distance := Number 0\<rparr>)) \<and>
   (\<forall>lv \<in> set (levels_of dd).
      (is_added lv \<and> \<not> is_removed lv \<and> \<not> is_altered lv) \<or>
      (\<not> is_added lv \<and> is_removed lv \<and> \<not> is_altered lv) \<or>
      (\<not> is_added lv \<and> \<not> is_removed lv \<and> is_altered lv))"
    apply (rule conjI)
     apply (rule exI[of _ ?r])
     apply (intro conjI)
    using run fields count run' once by (simp_all only:)
qed

theorem parse_deepdiff_classifies_witness:
  "\<exists>r. parse_deepdiff {''values_changed'', ''dictionary_item_added''}
         [(''values_changed'',
             Levels [\<lparr>t1 = PInt 1, t2 = PInt 2, path_t1 = [KStr ''a''], path_t2 = [KStr ''a'']\<rparr>]),
          (''deep_distance'', Number (1 / 2)),
          (''dictionary_item_added'',
             Levels [\<lparr>t1 = PNotPresent, t2 = PList [], path_t1 = [KStr ''b''], path_t2 = [KStr ''b'']\<rparr>])]
       = Inr r \<and>
      deep_distance r = Number (1 / 2) \<and>
      paths_added r = [[KStr ''b'']] \<and> leaf_paths_added r = [[KStr ''b'']] \<and>
      paths_removed r = [] \<and>
      paths_altered_1 r = [[KStr ''a'']] \<and> leaf_paths_altered_2 r = [[KStr ''a'']]"
  using parse_deepdiff_classifies [of "{''values_changed'', ''dictionary_item_added''}"
      "[(''values_changed'',
           Levels [\<lparr>t1 = PInt 1, t2 = PInt 2, path_t1 = [KStr ''a''], path_t2 = [KStr ''a'']\<rparr>]),
        (''deep_distance'', Number (1 / 2)),
        (''dictionary_item_added'',
           Levels [\<lparr>t1 = PNotPresent, t2 = PList [], path_t1 = [KStr ''b''], path_t2 = [KStr ''b'']\<rparr>])]"]
  by (simp add: well_formed_report_def both_absent_def is_added_def is_removed_def is_altered_def
      leafs_t1_def leafs_t2_def flat_deepdiff_entry_def flatten_dummy_empty)
    blast

text \<open>
  Claim C4. For every diff report with a level whose A-side and B-side values are both
  the not-present sentinel, \<open>parse_deepdiff\<close> fails and returns no result; when the
  report's keys are all known, the failure is the \<^verbatim>\<open>ValueError\<close> of the last branch.
\<close>

theorem parse_deepdiff_both_absent:
  "(\<exists>lv \<in> set (levels_of dd). both_absent lv) \<longrightarrow>
   (\<exists>e. parse_deepdiff REPORT_KEYS dd = Inl e) \<and>
   (well_formed_report REPORT_KEYS dd \<longrightarrow> parse_deepdiff REPORT_KEYS dd = Inl ValueError)"
  using parse_items_invalid[of dd REPORT_KEYS init_parsed]
  by (simp add: parse_deepdiff_def)

theorem parse_deepdiff_both_absent_witness:
  "parse_deepdiff {''values_changed''}
     [(''values_changed'',
         Levels [\<lparr>t1 = PInt 1, t2 = PInt 2, path_t1 = [KStr ''a''], path_t2 = [KStr ''a'']\<rparr>,
                 \<lparr>t1 = PNotPresent, t2 = PNotPresent, path_t1 = [KStr ''b''], path_t2 = [KStr ''b'']\<rparr>])]
   = Inl ValueError"
  using parse_deepdiff_both_absent [of
     "[(''values_changed'',
         Levels [\<lparr>t1 = PInt 1, t2 = PInt 2, path_t1 = [KStr ''a''], path_t2 = [KStr ''a'']\<rparr>,
                 \<lparr>t1 = PNotPresent, t2 = PNotPresent, path_t1 = [KStr ''b''], path_t2 = [KStr ''b'']\<rparr>])]"
     "{''values_changed''}"]
  by (simp add: well_formed_report_def both_absent_def)

end
